theory Spec2Isabelle
  imports Complex_Main "HOL-Library.Word" "HOL-Library.Multiset"
begin

section \<open>Pixel sorting: the data model\<close>

text \<open>
  The program (\<^verbatim>\<open>pixel_sort.py\<close>) works on numpy arrays of \<^verbatim>\<open>uint8\<close> channel values and on
  Python floats. A channel is an \<open>8 word\<close>, a pixel is the triple of its channels in
  R, G, B order.

  Floating-point arithmetic is not fixed by the model. Every function that computes with
  floats takes the arithmetic as its first argument: a type \<open>'f\<close> of float values, linearly
  ordered (the doubles without NaN, with \<open>-0.0\<close> and \<open>0.0\<close> identified, as \<^verbatim>\<open>==\<close> and
  \<^verbatim>\<open><=\<close> do), and the operations the source uses on it. What is proved for every arithmetic
  holds for the IEEE one. The arithmetic \<open>exact\<close> on the reals, without rounding, is used to
  run the definitions on concrete inputs.
\<close>

type_synonym channel = "8 word"
type_synonym pixel = "channel \<times> channel \<times> channel"

record 'f arith =
  flt :: "nat \<Rightarrow> 'f"              \<comment> \<open>an integer as a float: \<^verbatim>\<open>float(n)\<close>, \<^verbatim>\<open>255.0\<close>, the \<^verbatim>\<open>0\<close> and \<^verbatim>\<open>1\<close> of \<^verbatim>\<open>np.clip\<close>\<close>
  lit :: "rat \<Rightarrow> 'f"              \<comment> \<open>a decimal literal: \<^verbatim>\<open>0.299\<close>\<close>
  fadd :: "'f \<Rightarrow> 'f \<Rightarrow> 'f"
  fneg :: "'f \<Rightarrow> 'f"
  fmul :: "'f \<Rightarrow> 'f \<Rightarrow> 'f"
  fdiv :: "'f \<Rightarrow> 'f \<Rightarrow> 'f"
  fpow :: "'f \<Rightarrow> 'f \<Rightarrow> 'f"        \<comment> \<open>numpy's \<^verbatim>\<open>**\<close> on float64\<close>
  to_u8 :: "'f \<Rightarrow> channel"        \<comment> \<open>\<^verbatim>\<open>astype(np.uint8)\<close>\<close>

definition exact :: "real arith" where
  "exact = \<lparr> flt = real, lit = of_rat, fadd = (+), fneg = uminus, fmul = (*),
             fdiv = (/), fpow = (powr), to_u8 = (\<lambda>v. word_of_nat (nat \<lfloor>v\<rfloor>)) \<rparr>"

datatype error = UnboundLocalError | ZeroDivisionError

subsection \<open>Arrays\<close>

text \<open>
  A two-dimensional numpy array: its shape and its rows. \<open>wf_grid\<close> says that the rows
  agree with the shape, which numpy guarantees of every array.
\<close>

record 'a grid =
  height :: nat
  width :: nat
  cells :: "'a list list"

definition wf_grid :: "'a grid \<Rightarrow> bool" where
  "wf_grid g \<longleftrightarrow> length (cells g) = height g \<and> (\<forall>row \<in> set (cells g). length row = width g)"

definition cell_at :: "'a grid \<Rightarrow> nat \<Rightarrow> nat \<Rightarrow> 'a" where
  "cell_at g y x = cells g ! y ! x"

definition put :: "'a grid \<Rightarrow> nat \<Rightarrow> nat \<Rightarrow> 'a \<Rightarrow> 'a grid" where
  "put g y x v = g\<lparr>cells := (cells g)[y := (cells g ! y)[x := v]]\<rparr>"

definition zeros :: "nat \<Rightarrow> nat \<Rightarrow> channel grid" where
  "zeros h w = \<lparr>height = h, width = w, cells = replicate h (replicate w 0)\<rparr>"

section \<open>Colour metrics\<close>

text \<open>\<^verbatim>\<open>luminance\<close>: \<^verbatim>\<open>r, g, b = rgb / 255.0; return 0.299 * r + 0.587 * g + 0.114 * b\<close>.\<close>

definition luminance :: "'f arith \<Rightarrow> pixel \<Rightarrow> 'f" where
  "luminance A rgb =
     (case rgb of (r0, g0, b0) \<Rightarrow>
        let r = fdiv A (flt A (unat r0)) (lit A 255);
            g = fdiv A (flt A (unat g0)) (lit A 255);
            b = fdiv A (flt A (unat b0)) (lit A 255)
        in fadd A (fadd A (fmul A (lit A (299 / 1000)) r) (fmul A (lit A (587 / 1000)) g))
                  (fmul A (lit A (114 / 1000)) b))"

text \<open>
  \<^verbatim>\<open>rgb_to_hsl\<close> calls \<^verbatim>\<open>colour.RGB_to_HSL\<close> of the colour-science library, which is not
  part of the program: the conversion is the parameter \<open>hsl\<close> of type
  \<open>pixel \<Rightarrow> 'f \<times> 'f \<times> 'f\<close> wherever it is needed.
\<close>

type_synonym 'f hsl_fun = "pixel \<Rightarrow> 'f \<times> 'f \<times> 'f"

section \<open>Building the mask\<close>

text \<open>
  \<^verbatim>\<open>create_mask\<close> fills a zero array cell by cell. The value thresholded at a pixel is its
  luminance or one of its HSL components; for any other channel name no branch assigns
  \<^verbatim>\<open>val\<close>, and reading it raises \<^verbatim>\<open>UnboundLocalError\<close> at the first pixel.

  \<^verbatim>\<open>np.random.uniform\<close> is a parameter: \<open>uniform (y, x) lo hi\<close> is the number drawn at
  pixel \<open>(y, x)\<close> for the bounds \<open>lo\<close> and \<open>hi\<close>. One number is drawn per pixel, and only
  when \<^verbatim>\<open>random_offset > 0\<close>.
\<close>

definition map_grid :: "('a \<Rightarrow> 'b) \<Rightarrow> 'a grid \<Rightarrow> 'b grid" where
  "map_grid f g = \<lparr>height = height g, width = width g, cells = map (map f) (cells g)\<rparr>"

definition clip :: "'f::linorder \<Rightarrow> 'f \<Rightarrow> 'f \<Rightarrow> 'f" where
  "clip v lo hi = min hi (max v lo)"

type_synonym 'f uniform_fun = "nat \<times> nat \<Rightarrow> 'f \<Rightarrow> 'f \<Rightarrow> 'f"

text \<open>A \<^verbatim>\<open>for\<close> loop whose body may raise: the first error ends the loop.\<close>

fun for_each :: "('a \<Rightarrow> 's \<Rightarrow> error + 's) \<Rightarrow> 'a list \<Rightarrow> 's \<Rightarrow> error + 's" where
  "for_each body [] s = Inr s"
| "for_each body (a # as) s =
     (case body a s of Inl e \<Rightarrow> Inl e | Inr s' \<Rightarrow> for_each body as s')"

definition channel_value :: "'f arith \<Rightarrow> 'f hsl_fun \<Rightarrow> string \<Rightarrow> pixel \<Rightarrow> error + 'f" where
  "channel_value A hsl channel pixel =
     (if channel = ''luminance'' then Inr (luminance A pixel)
      else case hsl pixel of (h, s, l) \<Rightarrow>
        if channel = ''hsl_h'' then Inr h
        else if channel = ''hsl_s'' then Inr s
        else if channel = ''hsl_l'' then Inr l
        else Inl UnboundLocalError)"

definition jittered :: "'f::linorder arith \<Rightarrow> 'f uniform_fun \<Rightarrow> 'f \<Rightarrow> nat \<Rightarrow> nat \<Rightarrow> 'f \<Rightarrow> 'f" where
  "jittered A uniform random_offset y x val =
     (if random_offset > flt A 0
      then clip (fadd A val (uniform (y, x) (fneg A random_offset) random_offset)) (flt A 0) (flt A 1)
      else val)"

definition mask_pixel ::
  "'f::linorder arith \<Rightarrow> 'f hsl_fun \<Rightarrow> 'f uniform_fun \<Rightarrow> pixel grid \<Rightarrow> 'f \<Rightarrow> 'f \<Rightarrow> string \<Rightarrow> 'f
     \<Rightarrow> nat \<Rightarrow> nat \<Rightarrow> channel grid \<Rightarrow> error + channel grid" where
  "mask_pixel A hsl uniform img low_thresh high_thresh channel random_offset y x msk =
     (let pixel = cell_at img y x in
      case channel_value A hsl channel pixel of
        Inl e \<Rightarrow> Inl e
      | Inr val0 \<Rightarrow>
          let val = jittered A uniform random_offset y x val0
          in Inr (if low_thresh \<le> val \<and> val \<le> high_thresh then put msk y x 1 else msk))"

definition create_mask ::
  "'f::linorder arith \<Rightarrow> 'f hsl_fun \<Rightarrow> 'f uniform_fun \<Rightarrow> pixel grid \<Rightarrow> 'f \<Rightarrow> 'f \<Rightarrow> string \<Rightarrow> bool \<Rightarrow> 'f
     \<Rightarrow> error + channel grid" where
  "create_mask A hsl uniform img low_thresh high_thresh channel invert random_offset =
     (let h = height img; w = width img; msk = zeros h w in
      case for_each (\<lambda>y. for_each
                      (mask_pixel A hsl uniform img low_thresh high_thresh channel random_offset y)
                      [0..<w])
             [0..<h] msk of
        Inl e \<Rightarrow> Inl e
      | Inr msk \<Rightarrow> Inr (if invert then map_grid (\<lambda>v. 1 - v) msk else msk))"

section \<open>Extracting the spans\<close>

text \<open>
  A span is \<^verbatim>\<open>(row/col, start, end)\<close>, the end exclusive. The mask is a \<^verbatim>\<open>uint8\<close> array and a
  cell is selected when it is not \<open>0\<close>.

  \<open>run_end\<close> is the inner loop \<^verbatim>\<open>while x < w and mask[y, x]: x += 1\<close>, \<open>scan_line\<close> the loop
  \<^verbatim>\<open>while x < w\<close> around it. Both take the cells of the scan line as a function of the
  offset and the length of the line, so that the same definitions serve the rows
  (horizontal) and the columns (vertical) as the two branches of \<^verbatim>\<open>identify_spans\<close> do.
\<close>

type_synonym span = "nat \<times> nat \<times> nat"

function run_end :: "(nat \<Rightarrow> channel) \<Rightarrow> nat \<Rightarrow> nat \<Rightarrow> nat" where
  "run_end cell n x = (if x < n \<and> cell x \<noteq> 0 then run_end cell n (x + 1) else x)"
  by pat_completeness auto
termination
  by (relation "measure (\<lambda>(cell, n, x). n - x)") auto

declare run_end.simps [simp del]

lemma run_end_step: "x < n \<Longrightarrow> cell x \<noteq> 0 \<Longrightarrow> run_end cell n x = run_end cell n (Suc x)"
  by (subst run_end.simps) simp

lemma run_end_stop: "\<not> (x < n \<and> cell x \<noteq> 0) \<Longrightarrow> run_end cell n x = x"
  by (subst run_end.simps) auto

lemma run_end_ge: "x \<le> run_end cell n x"
proof (induction cell n x rule: run_end.induct)
  case (1 cell n x)
  show ?case
  proof (cases "x < n \<and> cell x \<noteq> 0")
    case True
    then have "run_end cell n x = run_end cell n (Suc x)"
      by (simp add: run_end_step)
    moreover have "x + 1 \<le> run_end cell n (x + 1)"
      using 1 True by simp
    ultimately show ?thesis by simp
  next
    case False
    then have "run_end cell n x = x" by (rule run_end_stop)
    then show ?thesis by simp
  qed
qed

function scan_line :: "(nat \<Rightarrow> channel) \<Rightarrow> nat \<Rightarrow> nat \<Rightarrow> nat \<Rightarrow> span list \<Rightarrow> span list" where
  "scan_line cell n i x spans =
     (if x < n then
        if cell x \<noteq> 0 then
          let start = x; x' = run_end cell n x
          in scan_line cell n i (x' + 1) (spans @ [(i, start, x')])
        else scan_line cell n i (x + 1) spans
      else spans)"
  by pat_completeness auto
termination
proof (relation "measure (\<lambda>(cell, n, i, x, spans). n - x)")
  show "wf (measure (\<lambda>(cell, n, i, x, spans). n - x))" by simp
next
  fix cell :: "nat \<Rightarrow> channel" and n i x :: nat and spans :: "span list" and xa xb :: nat
  assume "x < n" "cell x \<noteq> 0" "xa = x" "xb = run_end cell n x"
  moreover have "x \<le> run_end cell n x" by (rule run_end_ge)
  ultimately show "((cell, n, i, xb + 1, spans @ [(i, xa, xb)]), cell, n, i, x, spans)
        \<in> measure (\<lambda>(cell, n, i, x, spans). n - x)"
    by simp
next
  fix cell :: "nat \<Rightarrow> channel" and n i x :: nat and spans :: "span list"
  assume "x < n" "\<not> cell x \<noteq> 0"
  then show "((cell, n, i, x + 1, spans), cell, n, i, x, spans)
        \<in> measure (\<lambda>(cell, n, i, x, spans). n - x)"
    by simp
qed

declare scan_line.simps [simp del]

definition identify_spans :: "channel grid \<Rightarrow> bool \<Rightarrow> span list" where
  "identify_spans msk horizontal =
     (let h = height msk; w = width msk
      in if horizontal then
           fold (\<lambda>y spans. scan_line (\<lambda>x. cell_at msk y x) w y 0 spans) [0..<h] []
         else
           fold (\<lambda>x spans. scan_line (\<lambda>y. cell_at msk y x) h x 0 spans) [0..<w] [])"


text \<open>
  The vocabulary of the claims: the cell at an offset of a scan line, the number of scan
  lines and their length in either orientation; a maximal span of true cells; the order
  in which spans are emitted.
\<close>

definition line_cell :: "channel grid \<Rightarrow> bool \<Rightarrow> nat \<Rightarrow> nat \<Rightarrow> channel" where
  "line_cell msk horizontal i off = (if horizontal then cell_at msk i off else cell_at msk off i)"

definition line_count :: "'a grid \<Rightarrow> bool \<Rightarrow> nat" where
  "line_count g horizontal = (if horizontal then height g else width g)"

definition line_length :: "'a grid \<Rightarrow> bool \<Rightarrow> nat" where
  "line_length g horizontal = (if horizontal then width g else height g)"

definition maximal_span :: "channel grid \<Rightarrow> bool \<Rightarrow> span \<Rightarrow> bool" where
  "maximal_span msk horizontal sp =
     (case sp of (i, start, stop) \<Rightarrow>
        i < line_count msk horizontal \<and> start < stop \<and> stop \<le> line_length msk horizontal
        \<and> (\<forall>off \<in> {start..<stop}. line_cell msk horizontal i off \<noteq> 0)
        \<and> (0 < start \<longrightarrow> line_cell msk horizontal i (start - 1) = 0)
        \<and> (stop < line_length msk horizontal \<longrightarrow> line_cell msk horizontal i stop = 0))"

definition span_before :: "span \<Rightarrow> span \<Rightarrow> bool" where
  "span_before a b =
     (case a of (i1, start1, stop1) \<Rightarrow> case b of (i2, start2, stop2) \<Rightarrow>
        i1 < i2 \<or> (i1 = i2 \<and> start1 < start2 \<and> stop1 < start2))"

text \<open>The invariant of \<open>scan_line\<close>: what holds of a span found from offset \<open>x\<close> on.\<close>

definition line_span :: "(nat \<Rightarrow> channel) \<Rightarrow> nat \<Rightarrow> nat \<Rightarrow> nat \<Rightarrow> span \<Rightarrow> bool" where
  "line_span cell n i x sp =
     (case sp of (i', start, stop) \<Rightarrow>
        i' = i \<and> x \<le> start \<and> start < stop \<and> stop \<le> n
        \<and> (\<forall>off. start \<le> off \<and> off < stop \<longrightarrow> cell off \<noteq> 0)
        \<and> (x < start \<longrightarrow> cell (start - 1) = 0)
        \<and> (stop < n \<longrightarrow> cell stop = 0))"

text \<open>The mask of the first end-to-end scenario, with a second row.\<close>

definition example_mask :: "channel grid" where
  "example_mask = \<lparr>height = 2, width = 5, cells = [[0, 1, 1, 0, 1], [1, 1, 0, 0, 0]]\<rparr>"

section \<open>Sorting a span\<close>

text \<open>
  Python's \<^verbatim>\<open>sorted(xs, key=..., reverse=...)\<close> is stable in both directions; with
  \<^verbatim>\<open>reverse=True\<close> the list is reversed, sorted ascending and reversed again.
\<close>

definition py_sorted :: "('a \<Rightarrow> 'k::linorder) \<Rightarrow> bool \<Rightarrow> 'a list \<Rightarrow> 'a list" where
  "py_sorted key reverse xs =
     (if reverse then rev (sort_key key (rev xs)) else sort_key key xs)"

text \<open>
  Lines 103 to 107 of \<^verbatim>\<open>sort_span\<close>: the indices of the span sorted by \<^verbatim>\<open>keys[i]\<close>, then
  the pixels in that order. \<^verbatim>\<open>keys\<close> holds floats for a recognised metric and integers in
  the fallback, so the key type is a parameter. The pixels are \<^verbatim>\<open>uint8\<close> already and
  \<^verbatim>\<open>np.array(..., dtype=np.uint8)\<close> copies them as they are.
\<close>

definition sorted_indices :: "'k::linorder list \<Rightarrow> bool \<Rightarrow> nat \<Rightarrow> nat list" where
  "sorted_indices keys reverse n = py_sorted (\<lambda>i. keys ! i) reverse [0..<n]"

definition sort_by_keys :: "'k::linorder list \<Rightarrow> bool \<Rightarrow> 'a list \<Rightarrow> 'a list" where
  "sort_by_keys keys reverse span_pixels =
     map (\<lambda>i. span_pixels ! i) (sorted_indices keys reverse (length span_pixels))"

definition sort_span :: "'f::linorder arith \<Rightarrow> 'f hsl_fun \<Rightarrow> pixel list \<Rightarrow> string \<Rightarrow> bool \<Rightarrow> pixel list" where
  "sort_span A hsl span_pixels metric reverse =
     (if metric = ''luminance'' then
        sort_by_keys (map (\<lambda>p. luminance A p) span_pixels) reverse span_pixels
      else if metric = ''r'' then
        sort_by_keys (map (\<lambda>p. flt A (unat (fst p))) span_pixels) reverse span_pixels
      else if metric = ''g'' then
        sort_by_keys (map (\<lambda>p. flt A (unat (fst (snd p)))) span_pixels) reverse span_pixels
      else if metric = ''b'' then
        sort_by_keys (map (\<lambda>p. flt A (unat (snd (snd p)))) span_pixels) reverse span_pixels
      else if metric \<in> {''hsl_h'', ''hsl_s'', ''hsl_l''} then
        sort_by_keys
          (map (\<lambda>p. case hsl p of (h, s, l) \<Rightarrow>
                  if metric = ''hsl_h'' then h else if metric = ''hsl_s'' then s else l)
               span_pixels)
          reverse span_pixels
      else
        sort_by_keys [0..<length span_pixels] reverse span_pixels)"

text \<open>The key that \<open>sort_span\<close> computes for one pixel under a recognised metric.\<close>

definition recognised :: "string set" where
  "recognised = {''luminance'', ''r'', ''g'', ''b'', ''hsl_h'', ''hsl_s'', ''hsl_l''}"

definition pixel_key :: "'f arith \<Rightarrow> 'f hsl_fun \<Rightarrow> string \<Rightarrow> pixel \<Rightarrow> 'f" where
  "pixel_key A hsl metric p =
     (if metric = ''luminance'' then luminance A p
      else if metric = ''r'' then flt A (unat (fst p))
      else if metric = ''g'' then flt A (unat (fst (snd p)))
      else if metric = ''b'' then flt A (unat (snd (snd p)))
      else case hsl p of (h, s, l) \<Rightarrow>
             if metric = ''hsl_h'' then h else if metric = ''hsl_s'' then s else l)"

text \<open>
  For running examples: the exact arithmetic with a conversion that sends every pixel to
  \<open>(0, 0, 0)\<close>. The examples use metrics and channels that do not call the conversion.
\<close>

definition const_hsl :: "real hsl_fun" where
  "const_hsl p = (0, 0, 0)"

text \<open>
  The channel names \<^verbatim>\<open>create_mask\<close> knows, and whether it selects the pixel at
  \<open>(y, x)\<close>: the value of the channel there, jittered, lies between the thresholds.
\<close>

definition mask_channels :: "string set" where
  "mask_channels = {''luminance'', ''hsl_h'', ''hsl_s'', ''hsl_l''}"

definition selects ::
  "'f::linorder arith \<Rightarrow> 'f hsl_fun \<Rightarrow> 'f uniform_fun \<Rightarrow> pixel grid \<Rightarrow> 'f \<Rightarrow> 'f \<Rightarrow> string \<Rightarrow> 'f
     \<Rightarrow> nat \<Rightarrow> nat \<Rightarrow> bool" where
  "selects A hsl uniform img low_thresh high_thresh channel random_offset y x =
     (let val = jittered A uniform random_offset y x (pixel_key A hsl channel (cell_at img y x))
      in low_thresh \<le> val \<and> val \<le> high_thresh)"

text \<open>
  A row of five grey pixels of luminance \<open>0\<close>, \<open>1\<close>, \<open>1\<close>, \<open>0.2\<close> and \<open>1\<close>, and
  a random source that always draws \<open>0\<close>.
\<close>

definition grey_row :: "pixel grid" where
  "grey_row = \<lparr>height = 1, width = 5,
     cells = [[(0, 0, 0), (255, 255, 255), (255, 255, 255), (51, 51, 51), (255, 255, 255)]]\<rparr>"



definition no_jitter :: "real uniform_fun" where
  "no_jitter p lo hi = 0"

section \<open>The pipeline\<close>

text \<open>
  \<^verbatim>\<open>pixel_sort\<close> copies its input and sorts the spans of the copy in place. The arrays
  are kept in a store, a list of images addressed by position, so that what the run
  writes to is explicit: \<open>copy_array\<close> (\<^verbatim>\<open>img.copy()\<close>) and \<open>new_array\<close> (the result of
  the gamma expression) add an array to the store, and the loop over the spans updates the
  array at address \<open>out\<close>. The run returns the address of its result, or the error raised,
  together with the store as it leaves it.

  A horizontal span is written back by the slice assignment
  \<^verbatim>\<open>out[y, start:end] = sorted_span\<close> (\<open>set_slice\<close>), a vertical one cell by cell.
  The gamma step is the source's chain of whole-array operations: division by \<^verbatim>\<open>255.0\<close>,
  power, multiplication by \<^verbatim>\<open>255\<close>, \<^verbatim>\<open>np.clip\<close> and \<^verbatim>\<open>astype(np.uint8)\<close>. Python raises
  \<^verbatim>\<open>ZeroDivisionError\<close> for \<^verbatim>\<open>1/gamma\<close> when \<^verbatim>\<open>gamma\<close> is zero.
\<close>

type_synonym image = "pixel grid"
type_synonym heap = "image list"

definition copy_array :: "heap \<Rightarrow> nat \<Rightarrow> nat \<times> heap" where
  "copy_array hp r = (length hp, hp @ [hp ! r])"

definition new_array :: "heap \<Rightarrow> image \<Rightarrow> nat \<times> heap" where
  "new_array hp a = (length hp, hp @ [a])"

definition set_slice :: "'a grid \<Rightarrow> nat \<Rightarrow> nat \<Rightarrow> nat \<Rightarrow> 'a list \<Rightarrow> 'a grid" where
  "set_slice g y start stop vals =
     g\<lparr>cells := (cells g)[y := take start (cells g ! y) @ vals @ drop stop (cells g ! y)]\<rparr>"

definition sort_one ::
  "'f::linorder arith \<Rightarrow> 'f hsl_fun \<Rightarrow> bool \<Rightarrow> string \<Rightarrow> bool \<Rightarrow> span \<Rightarrow> image \<Rightarrow> image" where
  "sort_one A hsl horizontal metric reverse sp out =
     (if horizontal then
        case sp of (y, start, stop) \<Rightarrow>
          let span_pixels = map (\<lambda>x. cell_at out y x) [start..<stop];
              sorted_span = sort_span A hsl span_pixels metric reverse
          in set_slice out y start stop sorted_span
      else
        case sp of (x, start, stop) \<Rightarrow>
          let span_pixels = map (\<lambda>y. cell_at out y x) [start..<stop];
              sorted_span = sort_span A hsl span_pixels metric reverse
          in fold (\<lambda>(j, y) out. put out y x (sorted_span ! j))
               (enumerate 0 [start..<stop]) out)"

definition map_px :: "('a \<Rightarrow> 'b) \<Rightarrow> 'a \<times> 'a \<times> 'a \<Rightarrow> 'b \<times> 'b \<times> 'b" where
  "map_px f p = (case p of (r, g, b) \<Rightarrow> (f r, f g, f b))"

definition gamma_correct :: "'f::linorder arith \<Rightarrow> 'f \<Rightarrow> image \<Rightarrow> image" where
  "gamma_correct A gamma out =
     (let e = fdiv A (flt A 1) gamma;
          scaled = map_grid (map_px (\<lambda>v. fdiv A (flt A (unat v)) (lit A 255))) out;
          raised = map_grid (map_px (\<lambda>v. fpow A v e)) scaled;
          full = map_grid (map_px (\<lambda>v. fmul A v (flt A 255))) raised;
          clipped = map_grid (map_px (\<lambda>v. clip v (flt A 0) (flt A 255))) full
      in map_grid (map_px (to_u8 A)) clipped)"

definition pixel_sort ::
  "'f::linorder arith \<Rightarrow> 'f hsl_fun \<Rightarrow> 'f uniform_fun \<Rightarrow> heap \<Rightarrow> nat \<Rightarrow> 'f \<Rightarrow> 'f \<Rightarrow> string \<Rightarrow> bool \<Rightarrow> 'f
     \<Rightarrow> bool \<Rightarrow> string \<Rightarrow> bool \<Rightarrow> 'f \<Rightarrow> (error + nat) \<times> heap" where
  "pixel_sort A hsl uniform hp img low_thresh high_thresh channel invert random_offset
              horizontal metric reverse gamma =
     (case copy_array hp img of (out, hp) \<Rightarrow>
      case create_mask A hsl uniform (hp ! img) low_thresh high_thresh channel invert random_offset of
        Inl e \<Rightarrow> (Inl e, hp)
      | Inr msk \<Rightarrow>
          let spans = identify_spans msk horizontal;
              hp = fold (\<lambda>sp hp. hp[out := sort_one A hsl horizontal metric reverse sp (hp ! out)])
                     spans hp
          in if gamma \<noteq> lit A 1 then
               if gamma = flt A 0 then (Inl ZeroDivisionError, hp)
               else case new_array hp (gamma_correct A gamma (hp ! out)) of
                      (out, hp) \<Rightarrow> (Inr out, hp)
             else (Inr out, hp))"

text \<open>
  The vocabulary of the claims about the pipeline: the positions a span covers, a span that
  lies within an array, the buffer as the loop over the spans leaves it, and the value the
  gamma formula gives one channel.
\<close>

definition in_span :: "bool \<Rightarrow> span \<Rightarrow> nat \<Rightarrow> nat \<Rightarrow> bool" where
  "in_span horizontal sp y x =
     (case sp of (i, start, stop) \<Rightarrow>
        if horizontal then y = i \<and> start \<le> x \<and> x < stop
        else x = i \<and> start \<le> y \<and> y < stop)"

definition span_in_range :: "'a grid \<Rightarrow> bool \<Rightarrow> span \<Rightarrow> bool" where
  "span_in_range g horizontal sp =
     (case sp of (i, start, stop) \<Rightarrow>
        i < line_count g horizontal \<and> start \<le> stop \<and> stop \<le> line_length g horizontal)"

definition sorted_image ::
  "'f::linorder arith \<Rightarrow> 'f hsl_fun \<Rightarrow> bool \<Rightarrow> string \<Rightarrow> bool \<Rightarrow> channel grid \<Rightarrow> image \<Rightarrow> image" where
  "sorted_image A hsl horizontal metric reverse msk img =
     fold (sort_one A hsl horizontal metric reverse) (identify_spans msk horizontal) img"

definition gamma_value :: "'f::linorder arith \<Rightarrow> 'f \<Rightarrow> channel \<Rightarrow> channel" where
  "gamma_value A gamma v =
     to_u8 A (clip (fmul A (fpow A (fdiv A (flt A (unat v)) (lit A 255)) (fdiv A (flt A 1) gamma))
                      (flt A 255))
                (flt A 0) (flt A 255))"

text \<open>An image of two rows for the examples.\<close>

definition example_image :: image where
  "example_image = \<lparr>height = 2, width = 4,
     cells = [[(200, 0, 0), (100, 0, 0), (0, 0, 255), (150, 0, 0)],
              [(90, 90, 90), (10, 10, 10), (80, 80, 80), (255, 255, 255)]]\<rparr>"


section \<open>Properties of the span sorter\<close>

subsection \<open>The library sort\<close>

lemma map_insort_key_comp:
  "map g (insort_key (\<lambda>i. f (g i)) x xs) = insort_key f (g x) (map g xs)"
  by (induction xs) simp_all

lemma map_sort_key_comp:
  "map g (sort_key (\<lambda>i. f (g i)) xs) = sort_key f (map g xs)"
  by (induction xs) (simp_all add: map_insort_key_comp)

lemma insort_key_agree:
  "f x = g x \<Longrightarrow> (\<forall>y \<in> set xs. f y = g y) \<Longrightarrow> insort_key f x xs = insort_key g x xs"
  by (induction xs) simp_all

lemma sort_key_agree:
  "(\<forall>y \<in> set xs. f y = g y) \<Longrightarrow> sort_key f xs = sort_key g xs"
proof (induction xs)
  case Nil
  show ?case by simp
next
  case (Cons x xs)
  then have "sort_key f xs = sort_key g xs" and "f x = g x"
    by simp_all
  moreover have "\<forall>y \<in> set (sort_key g xs). f y = g y"
    using Cons.prems by simp
  ultimately show ?case
    by (simp add: insort_key_agree [of f x g])
qed

lemma py_sorted_agree:
  "(\<forall>y \<in> set xs. f y = g y) \<Longrightarrow> py_sorted f reverse xs = py_sorted g reverse xs"
  using sort_key_agree [of xs f g] sort_key_agree [of "rev xs" f g]
  by (simp add: py_sorted_def)

lemma map_py_sorted_comp:
  "map g (py_sorted (\<lambda>i. f (g i)) reverse xs) = py_sorted f reverse (map g xs)"
proof (cases reverse)
  case False
  then show ?thesis by (simp add: py_sorted_def map_sort_key_comp)
next
  case True
  have "map g (rev (sort_key (\<lambda>i. f (g i)) (rev xs)))
          = rev (map g (sort_key (\<lambda>i. f (g i)) (rev xs)))"
    by (simp only: rev_map)
  also have "\<dots> = rev (sort_key f (map g (rev xs)))"
    by (simp only: map_sort_key_comp)
  also have "\<dots> = rev (sort_key f (rev (map g xs)))"
    by (simp only: rev_map)
  finally show ?thesis using True by (simp add: py_sorted_def)
qed

lemma mset_py_sorted: "mset (py_sorted f reverse xs) = mset xs"
  by (simp add: py_sorted_def)

lemma set_py_sorted: "set (py_sorted f reverse xs) = set xs"
  by (simp add: py_sorted_def)

lemma py_sorted_stable:
  "filter (\<lambda>y. f y = k) (py_sorted f reverse xs) = filter (\<lambda>y. f y = k) xs"
proof (cases reverse)
  case False
  then show ?thesis by (simp add: py_sorted_def sort_key_stable)
next
  case True
  have "filter (\<lambda>y. f y = k) (rev (sort_key f (rev xs)))
          = rev (filter (\<lambda>y. f y = k) (sort_key f (rev xs)))"
    by (rule rev_filter [symmetric])
  also have "\<dots> = rev (filter (\<lambda>y. f y = k) (rev xs))"
    by (simp only: sort_key_stable)
  also have "\<dots> = filter (\<lambda>y. f y = k) xs"
    by (simp only: rev_filter rev_rev_ident)
  finally show ?thesis using True by (simp add: py_sorted_def)
qed

lemma py_sorted_ordered:
  "sorted (map f (if reverse then rev (py_sorted f reverse xs) else py_sorted f reverse xs))"
  by (simp add: py_sorted_def)

lemma py_sorted_equal_keys:
  assumes "\<forall>x \<in> set xs. \<forall>y \<in> set xs. f x = f y"
  shows "py_sorted f reverse xs = xs"
proof (cases xs)
  case Nil
  then show ?thesis by (simp add: py_sorted_def)
next
  case (Cons a as)
  then have "a \<in> set xs" by simp
  with assms have "\<forall>x \<in> set xs. f x = (\<lambda>_. f a) x" by blast
  then have "py_sorted f reverse xs = py_sorted (\<lambda>_. f a) reverse xs"
    by (rule py_sorted_agree)
  then show ?thesis by (simp add: py_sorted_def sort_key_const)
qed

subsection \<open>Sorting by a list of keys\<close>

lemma set_sorted_indices: "set (sorted_indices keys reverse n) = {0..<n}"
  by (simp add: sorted_indices_def set_py_sorted)

lemma sort_by_keys_map: "sort_by_keys (map f ps) reverse ps = py_sorted f reverse ps"
proof -
  have "\<forall>i \<in> set [0..<length ps]. map f ps ! i = f (ps ! i)"
    by simp
  then have "py_sorted (\<lambda>i. map f ps ! i) reverse [0..<length ps]
               = py_sorted (\<lambda>i. f (ps ! i)) reverse [0..<length ps]"
    by (rule py_sorted_agree)
  then have "sort_by_keys (map f ps) reverse ps
               = map (\<lambda>i. ps ! i) (py_sorted (\<lambda>i. f (ps ! i)) reverse [0..<length ps])"
    by (simp add: sort_by_keys_def sorted_indices_def)
  also have "\<dots> = py_sorted f reverse (map (\<lambda>i. ps ! i) [0..<length ps])"
    by (rule map_py_sorted_comp)
  finally show ?thesis by (simp add: map_nth)
qed

lemma sort_by_keys_range:
  "sort_by_keys [0..<length ps] reverse ps = (if reverse then rev ps else ps)"
proof -
  have "\<forall>i \<in> set [0..<length ps]. [0..<length ps] ! i = (\<lambda>i. i) i"
    by simp
  then have eq: "py_sorted (\<lambda>i. [0..<length ps] ! i) reverse [0..<length ps]
               = py_sorted (\<lambda>i. i) reverse [0..<length ps]"
    by (rule py_sorted_agree)
  have up: "sort_key (\<lambda>i. i) (rev [0..<length ps]) = [0..<length ps]"
    by (rule properties_for_sort) simp_all
  have "py_sorted (\<lambda>i. i) reverse [0..<length ps]
          = (if reverse then rev [0..<length ps] else [0..<length ps])"
    by (simp add: py_sorted_def up)
  with eq have "sort_by_keys [0..<length ps] reverse ps
      = map (\<lambda>i. ps ! i) (if reverse then rev [0..<length ps] else [0..<length ps])"
    by (simp add: sort_by_keys_def sorted_indices_def)
  moreover have "map (\<lambda>i. ps ! i) (rev [0..<length ps]) = rev ps"
    by (simp only: rev_map [symmetric] map_nth)
  ultimately show ?thesis by (simp add: map_nth)
qed

subsection \<open>\<open>sort_span\<close>\<close>

lemma sort_span_recognised:
  "metric \<in> recognised \<Longrightarrow>
     sort_span A hsl ps metric reverse = py_sorted (pixel_key A hsl metric) reverse ps"
  unfolding sort_span_def pixel_key_def recognised_def
  by (auto simp: sort_by_keys_map)

lemma sort_span_fallback:
  "metric \<notin> recognised \<Longrightarrow>
     sort_span A hsl ps metric reverse = (if reverse then rev ps else ps)"
  unfolding sort_span_def recognised_def
  by (simp add: sort_by_keys_range)

lemma mset_sort_span: "mset (sort_span A hsl ps metric reverse) = mset ps"
  by (cases "metric \<in> recognised")
     (simp_all add: sort_span_recognised sort_span_fallback mset_py_sorted)

lemma length_sort_span: "length (sort_span A hsl ps metric reverse) = length ps"
  using mset_sort_span [of A hsl ps metric reverse] by (metis size_mset)

section \<open>The claims about \<open>sort_span\<close>\<close>

text \<open>
  C1, as the program has it. A metric outside
  \<open>{luminance, r, g, b, hsl_h, hsl_s, hsl_l}\<close> makes the keys the positions
  \<open>0, 1, ..., n - 1\<close>. With \<open>reverse\<close> unset the pixels come back unchanged, in
  their original positions; with \<open>reverse\<close> set they come back in reversed order, since the
  flag is passed to \<^verbatim>\<open>sorted\<close> for the fallback keys as for any others.
\<close>

theorem sort_span_unrecognised:
  "metric \<notin> recognised \<Longrightarrow>
     sort_span A hsl ps metric False = ps \<and> sort_span A hsl ps metric True = rev ps"
  by (simp add: sort_span_fallback)

theorem sort_span_unrecognised_witness:
  "''hue'' \<notin> recognised
   \<and> sort_span exact const_hsl [(1, 2, 3), (4, 5, 6), (7, 8, 9)] ''hue'' False
       = [(1, 2, 3), (4, 5, 6), (7, 8, 9)]
   \<and> sort_span exact const_hsl [(1, 2, 3), (4, 5, 6), (7, 8, 9)] ''hue'' True
       = [(7, 8, 9), (4, 5, 6), (1, 2, 3)]"
  using sort_span_unrecognised [of "''hue''" exact const_hsl "[(1, 2, 3), (4, 5, 6), (7, 8, 9)]"]
  by (simp add: recognised_def)

text \<open>
  C1 as the specification states it (identity for both values of the flag) fails: two
  pixels sorted by the unrecognised metric \<open>hue\<close> with \<open>reverse\<close> set change places.
\<close>

theorem sort_span_unrecognised_descending_not_identity:
  "sort_span exact const_hsl [(1, 2, 3), (4, 5, 6)] ''hue'' True \<noteq> [(1, 2, 3), (4, 5, 6)]"
  by (simp add: sort_span_fallback recognised_def)

text \<open>
  C3: for a recognised metric \<open>sort_span\<close> sorts by the key it computes, ascending, or
  descending when \<open>reverse\<close> is set, and it does so stably: for every key value \<open>k\<close> the
  pixels with key \<open>k\<close> appear in the output in the order they have in the input. A span
  whose pixels all have the same key is returned as it is.
\<close>

theorem sort_span_stable:
  "metric \<in> recognised \<Longrightarrow>
     sorted (map (pixel_key A hsl metric)
               (if reverse then rev (sort_span A hsl ps metric reverse)
                else sort_span A hsl ps metric reverse))
     \<and> (\<forall>k. filter (\<lambda>p. pixel_key A hsl metric p = k) (sort_span A hsl ps metric reverse)
              = filter (\<lambda>p. pixel_key A hsl metric p = k) ps)
     \<and> ((\<forall>p \<in> set ps. \<forall>q \<in> set ps. pixel_key A hsl metric p = pixel_key A hsl metric q)
          \<longrightarrow> sort_span A hsl ps metric reverse = ps)"
proof -
  assume m: "metric \<in> recognised"
  let ?key = "pixel_key A hsl metric"
  have out: "sort_span A hsl ps metric reverse = py_sorted ?key reverse ps"
    using m by (rule sort_span_recognised)
  have "sorted (map ?key (if reverse then rev (py_sorted ?key reverse ps)
                          else py_sorted ?key reverse ps))"
    by (rule py_sorted_ordered)
  moreover have "\<forall>k. filter (\<lambda>p. ?key p = k) (py_sorted ?key reverse ps)
                      = filter (\<lambda>p. ?key p = k) ps"
    by (simp only: py_sorted_stable) simp
  moreover have "(\<forall>p \<in> set ps. \<forall>q \<in> set ps. ?key p = ?key q)
                   \<longrightarrow> py_sorted ?key reverse ps = ps"
    by (rule impI) (rule py_sorted_equal_keys)
  ultimately show ?thesis
    unfolding out by (intro conjI)
qed

theorem sort_span_stable_witness:
  "''r'' \<in> recognised
   \<and> filter (\<lambda>p. pixel_key exact const_hsl ''r'' p = 200)
        (sort_span exact const_hsl [(200, 1, 1), (100, 2, 2), (200, 3, 3)] ''r'' True)
       = [(200, 1, 1), (200, 3, 3)]
   \<and> sort_span exact const_hsl [(7, 1, 1), (7, 2, 2), (7, 0, 0)] ''r'' True
       = [(7, 1, 1), (7, 2, 2), (7, 0, 0)]"
proof -
  have m: "''r'' \<in> recognised"
    by (simp add: recognised_def)
  have key: "pixel_key exact const_hsl ''r'' (r, g, b) = real (unat r)" for r g b
    by (simp add: pixel_key_def exact_def)
  note mixed = sort_span_stable
    [where A = exact and hsl = const_hsl and reverse = True
       and ps = "[(200, 1, 1), (100, 2, 2), (200, 3, 3)]", OF m]
  note equal = sort_span_stable
    [where A = exact and hsl = const_hsl and reverse = True
       and ps = "[(7, 1, 1), (7, 2, 2), (7, 0, 0)]", OF m]
  from mixed have
    "filter (\<lambda>p. pixel_key exact const_hsl ''r'' p = 200)
       (sort_span exact const_hsl [(200, 1, 1), (100, 2, 2), (200, 3, 3)] ''r'' True)
     = filter (\<lambda>p. pixel_key exact const_hsl ''r'' p = 200) [(200, 1, 1), (100, 2, 2), (200, 3, 3)]"
    by blast
  then have one:
    "filter (\<lambda>p. pixel_key exact const_hsl ''r'' p = 200)
       (sort_span exact const_hsl [(200, 1, 1), (100, 2, 2), (200, 3, 3)] ''r'' True)
     = [(200, 1, 1), (200, 3, 3)]"
    by (simp add: key)
  have "\<forall>p \<in> set [(7, 1, 1), (7, 2, 2), (7, 0, 0)]. \<forall>q \<in> set [(7, 1, 1), (7, 2, 2), (7, 0, 0)].
          pixel_key exact const_hsl ''r'' p = pixel_key exact const_hsl ''r'' q"
    by (simp add: key)
  with equal have two:
    "sort_span exact const_hsl [(7, 1, 1), (7, 2, 2), (7, 0, 0)] ''r'' True
       = [(7, 1, 1), (7, 2, 2), (7, 0, 0)]"
    by blast
  from m one two show ?thesis by (intro conjI)
qed

text \<open>
  C4: for every pixel sequence, every metric string and both orders, \<open>sort_span\<close> returns
  a permutation of its input, of the same length; the empty sequence gives the empty
  sequence. \<open>sort_span\<close> has no error result: every index it reads is one of
  \<open>sorted_indices\<close>, which are the positions of the span (\<open>set_sorted_indices\<close>).
\<close>

theorem sort_span_permutation:
  "mset (sort_span A hsl ps metric reverse) = mset ps
   \<and> length (sort_span A hsl ps metric reverse) = length ps
   \<and> sort_span A hsl [] metric reverse = []"
proof -
  have "length (sort_span A hsl [] metric reverse) = 0"
    by (simp only: length_sort_span list.size)
  then have "sort_span A hsl [] metric reverse = []"
    by (simp only: length_0_conv)
  then show ?thesis
    by (simp add: mset_sort_span length_sort_span)
qed

section \<open>Properties of the span extraction\<close>

lemma run_end_le: "x \<le> n \<Longrightarrow> run_end cell n x \<le> n"
proof (induction cell n x rule: run_end.induct)
  case (1 cell n x)
  show ?case
  proof (cases "x < n \<and> cell x \<noteq> 0")
    case True
    then have "run_end cell n x = run_end cell n (Suc x)"
      by (simp add: run_end_step)
    moreover have "run_end cell n (x + 1) \<le> n"
      using 1 True by simp
    ultimately show ?thesis by simp
  next
    case False
    then have "run_end cell n x = x" by (rule run_end_stop)
    with 1 show ?thesis by simp
  qed
qed

lemma run_end_cells: "x \<le> off \<Longrightarrow> off < run_end cell n x \<Longrightarrow> cell off \<noteq> 0"
proof (induction cell n x rule: run_end.induct)
  case (1 cell n x)
  show ?case
  proof (cases "x < n \<and> cell x \<noteq> 0")
    case True
    then have eq: "run_end cell n x = run_end cell n (Suc x)"
      by (simp add: run_end_step)
    show ?thesis
    proof (cases "off = x")
      case True
      with \<open>x < n \<and> cell x \<noteq> 0\<close> show ?thesis by simp
    next
      case False
      with 1 True eq show ?thesis by simp
    qed
  next
    case False
    then have "run_end cell n x = x" by (rule run_end_stop)
    with 1 show ?thesis by simp
  qed
qed

lemma run_end_false: "run_end cell n x < n \<Longrightarrow> cell (run_end cell n x) = 0"
proof (induction cell n x rule: run_end.induct)
  case (1 cell n x)
  show ?case
  proof (cases "x < n \<and> cell x \<noteq> 0")
    case True
    then have eq: "run_end cell n x = run_end cell n (Suc x)"
      by (simp add: run_end_step)
    with 1 True show ?thesis by simp
  next
    case False
    then have "run_end cell n x = x" by (rule run_end_stop)
    with 1 False show ?thesis by simp
  qed
qed

lemma run_end_gt: "x < n \<Longrightarrow> cell x \<noteq> 0 \<Longrightarrow> x < run_end cell n x"
  using run_end_ge [of "Suc x" cell n] by (simp add: run_end_step)

lemma scan_line_hit:
  "x < n \<Longrightarrow> cell x \<noteq> 0 \<Longrightarrow>
     scan_line cell n i x acc
       = scan_line cell n i (run_end cell n x + 1) (acc @ [(i, x, run_end cell n x)])"
  by (subst scan_line.simps) (simp add: Let_def)

lemma scan_line_miss:
  "x < n \<Longrightarrow> cell x = 0 \<Longrightarrow> scan_line cell n i x acc = scan_line cell n i (x + 1) acc"
  by (subst scan_line.simps) simp

lemma scan_line_done: "\<not> x < n \<Longrightarrow> scan_line cell n i x acc = acc"
  by (subst scan_line.simps) simp

lemma scan_line_acc: "scan_line cell n i x acc = acc @ scan_line cell n i x []"
proof (induction "n - x" arbitrary: x acc rule: less_induct)
  case less
  consider (stop) "\<not> x < n" | (miss) "x < n" "cell x = 0" | (hit) "x < n" "cell x \<noteq> 0"
    by blast
  then show ?case
  proof cases
    case stop
    then show ?thesis by (simp add: scan_line_done)
  next
    case miss
    then have "n - (x + 1) < n - x" by simp
    then have "scan_line cell n i (x + 1) acc = acc @ scan_line cell n i (x + 1) []"
      by (rule less)
    with miss show ?thesis by (simp add: scan_line_miss)
  next
    case hit
    let ?e = "run_end cell n x"
    have "x \<le> ?e" by (rule run_end_ge)
    with hit have d: "n - (?e + 1) < n - x" by simp
    have "scan_line cell n i (?e + 1) (acc @ [(i, x, ?e)])
            = (acc @ [(i, x, ?e)]) @ scan_line cell n i (?e + 1) []"
      using d by (rule less)
    moreover have "scan_line cell n i (?e + 1) [(i, x, ?e)]
            = [(i, x, ?e)] @ scan_line cell n i (?e + 1) []"
      using d by (rule less)
    ultimately show ?thesis
      using hit scan_line_hit [of x n cell i acc] scan_line_hit [of x n cell i "[]"] by simp
  qed
qed

lemma line_span_later:
  assumes "line_span cell n i x' sp" "x \<le> x'" "x < x' \<Longrightarrow> cell (x' - 1) = 0"
  shows "line_span cell n i x sp"
  using assms unfolding line_span_def
  by (cases sp) (auto simp: le_less)

lemma scan_line_spans: "sp \<in> set (scan_line cell n i x []) \<Longrightarrow> line_span cell n i x sp"
proof (induction "n - x" arbitrary: x rule: less_induct)
  case less
  consider (stop) "\<not> x < n" | (miss) "x < n" "cell x = 0" | (hit) "x < n" "cell x \<noteq> 0"
    by blast
  then show ?case
  proof cases
    case stop
    with less.prems show ?thesis by (simp add: scan_line_done)
  next
    case miss
    then have "n - (x + 1) < n - x" by simp
    moreover have "sp \<in> set (scan_line cell n i (x + 1) [])"
      using less.prems miss by (simp add: scan_line_miss)
    ultimately have "line_span cell n i (x + 1) sp" by (rule less.hyps)
    then show ?thesis
      by (rule line_span_later) (simp_all add: miss)
  next
    case hit
    let ?e = "run_end cell n x"
    have ge: "x < ?e" using hit by (rule run_end_gt)
    have le: "?e \<le> n" using hit by (simp add: run_end_le)
    have "scan_line cell n i x [] = (i, x, ?e) # scan_line cell n i (?e + 1) []"
      using hit scan_line_hit [of x n cell i "[]"] scan_line_acc [of cell n i "?e + 1" "[(i, x, ?e)]"]
      by simp
    with less.prems consider (first) "sp = (i, x, ?e)" | (rest) "sp \<in> set (scan_line cell n i (?e + 1) [])"
      by auto
    then show ?thesis
    proof cases
      case first
      then show ?thesis
        unfolding line_span_def using ge le run_end_cells [of x _ cell n] run_end_false [of cell n x]
        by auto
    next
      case rest
      have "n - (?e + 1) < n - x" using ge hit by simp
      then have "line_span cell n i (?e + 1) sp" using rest by (rule less.hyps)
      then show ?thesis
      proof (rule line_span_later)
        show "x \<le> ?e + 1" using ge by simp
        show "cell (?e + 1 - 1) = 0"
        proof -
          from \<open>line_span cell n i (?e + 1) sp\<close> have "?e < n"
            unfolding line_span_def by (cases sp) auto
          then show ?thesis by (simp add: run_end_false)
        qed
      qed
    qed
  qed
qed

lemma scan_line_sorted:
  "sorted_wrt (\<lambda>a b. snd (snd a) < fst (snd b)) (scan_line cell n i x [])"
proof (induction "n - x" arbitrary: x rule: less_induct)
  case less
  consider (stop) "\<not> x < n" | (miss) "x < n" "cell x = 0" | (hit) "x < n" "cell x \<noteq> 0"
    by blast
  then show ?case
  proof cases
    case stop
    then show ?thesis by (simp add: scan_line_done)
  next
    case miss
    then have "n - (x + 1) < n - x" by simp
    then have "sorted_wrt (\<lambda>a b. snd (snd a) < fst (snd b)) (scan_line cell n i (x + 1) [])"
      by (rule less.hyps)
    with miss show ?thesis by (simp add: scan_line_miss)
  next
    case hit
    let ?e = "run_end cell n x"
    have ge: "x < ?e" using hit by (rule run_end_gt)
    have eq: "scan_line cell n i x [] = (i, x, ?e) # scan_line cell n i (?e + 1) []"
      using hit scan_line_hit [of x n cell i "[]"] scan_line_acc [of cell n i "?e + 1" "[(i, x, ?e)]"]
      by simp
    have "n - (?e + 1) < n - x" using ge hit by simp
    then have "sorted_wrt (\<lambda>a b. snd (snd a) < fst (snd b)) (scan_line cell n i (?e + 1) [])"
      by (rule less.hyps)
    moreover have "?e < fst (snd sp)" if "sp \<in> set (scan_line cell n i (?e + 1) [])" for sp
      using scan_line_spans [OF that] unfolding line_span_def by (cases sp) auto
    ultimately show ?thesis
      unfolding eq by simp
  qed
qed


lemma fold_scan_line:
  "fold (\<lambda>i spans. scan_line (cell i) n i 0 spans) is acc
     = acc @ concat (map (\<lambda>i. scan_line (cell i) n i 0 []) is)"
proof (induction "is" arbitrary: acc)
  case Nil
  show ?case by simp
next
  case (Cons i "is")
  show ?case
    using Cons [of "scan_line (cell i) n i 0 acc"] scan_line_acc [of "cell i" n i 0 acc]
    by simp
qed

lemma line_cell_fun:
  "line_cell msk True i = (\<lambda>x. cell_at msk i x)"
  "line_cell msk False i = (\<lambda>y. cell_at msk y i)"
  by (rule ext, simp add: line_cell_def)+

lemma identify_spans_concat:
  "identify_spans msk horizontal
     = concat (map (\<lambda>i. scan_line (line_cell msk horizontal i) (line_length msk horizontal) i 0 [])
                [0..<line_count msk horizontal])"
proof (cases horizontal)
  case True
  then show ?thesis
    using fold_scan_line [of "\<lambda>y x. cell_at msk y x" "width msk" "[0..<height msk]" "[]"]
    by (simp add: identify_spans_def line_cell_fun line_length_def line_count_def)
next
  case False
  then show ?thesis
    using fold_scan_line [of "\<lambda>x y. cell_at msk y x" "height msk" "[0..<width msk]" "[]"]
    by (simp add: identify_spans_def line_cell_fun line_length_def line_count_def)
qed

lemma in_identify_spans:
  "sp \<in> set (identify_spans msk horizontal) \<longleftrightarrow>
     (\<exists>i < line_count msk horizontal.
        sp \<in> set (scan_line (line_cell msk horizontal i) (line_length msk horizontal) i 0 []))"
  by (auto simp: identify_spans_concat)

lemma line_span_maximal:
  "i < line_count msk horizontal \<Longrightarrow>
   line_span (line_cell msk horizontal i) (line_length msk horizontal) i 0 sp \<Longrightarrow>
   maximal_span msk horizontal sp"
  unfolding line_span_def maximal_span_def by (cases sp) auto

lemma identify_spans_all_maximal:
  "sp \<in> set (identify_spans msk horizontal) \<Longrightarrow> maximal_span msk horizontal sp"
  using scan_line_spans line_span_maximal unfolding in_identify_spans by blast

lemma scan_line_before:
  "sorted_wrt span_before (scan_line cell n i x [])"
proof -
  have "span_before a b"
    if "a \<in> set (scan_line cell n i x [])" "b \<in> set (scan_line cell n i x [])"
       "snd (snd a) < fst (snd b)" for a b
    using scan_line_spans [OF that(1)] scan_line_spans [OF that(2)] that(3)
    unfolding line_span_def span_before_def by (cases a; cases b) auto
  then show ?thesis
    using sorted_wrt_mono_rel [OF _ scan_line_sorted [of cell n i x], of span_before] by blast
qed

lemma sorted_lines:
  assumes "\<And>i. sorted_wrt span_before (f i)" and "\<And>i sp. sp \<in> set (f i) \<Longrightarrow> fst sp = i"
  shows "sorted_wrt span_before (concat (map f [0..<m]))"
proof (induction m)
  case 0
  show ?case by simp
next
  case (Suc m)
  have "span_before a b" if "a \<in> set (concat (map f [0..<m]))" "b \<in> set (f m)" for a b
  proof -
    from that(1) obtain i where "i < m" "a \<in> set (f i)" by auto
    then have "fst a < fst b" using assms(2) [of a i] assms(2) [OF that(2)] by simp
    then show ?thesis unfolding span_before_def by (cases a; cases b) simp
  qed
  with Suc assms(1) [of m] show ?case
    by (simp add: sorted_wrt_append)
qed

lemma identify_spans_sorted: "sorted_wrt span_before (identify_spans msk horizontal)"
  unfolding identify_spans_concat
proof (rule sorted_lines)
  fix i
  show "sorted_wrt span_before
          (scan_line (line_cell msk horizontal i) (line_length msk horizontal) i 0 [])"
    by (rule scan_line_before)
next
  fix i sp
  assume "sp \<in> set (scan_line (line_cell msk horizontal i) (line_length msk horizontal) i 0 [])"
  then have "line_span (line_cell msk horizontal i) (line_length msk horizontal) i 0 sp"
    by (rule scan_line_spans)
  then show "fst sp = i" unfolding line_span_def by (cases sp) simp
qed

lemma example_spans_h: "identify_spans example_mask True = [(0, 1, 3), (0, 4, 5), (1, 0, 2)]"
  by code_simp

lemma example_spans_v: "identify_spans example_mask False = [(0, 1, 2), (1, 0, 2), (2, 0, 1), (4, 0, 1)]"
  by code_simp

section \<open>The claim about \<open>identify_spans\<close>\<close>

text \<open>
  C6: for every grid and both orientations, every span that \<open>identify_spans\<close> emits lies on a
  scan line of the grid, has \<open>start < end\<close> within the line, covers only true cells, and is
  maximal: the cell before \<open>start\<close> and the cell at \<open>end\<close>, where the line has them, are
  false. The spans come in ascending order of scan line and, within a line, of start offset,
  each ending strictly before the next one starts, so that two spans of a line neither
  overlap nor touch.
\<close>

theorem identify_spans_maximal_ordered:
  "(\<forall>sp \<in> set (identify_spans msk horizontal). maximal_span msk horizontal sp)
   \<and> sorted_wrt span_before (identify_spans msk horizontal)"
  using identify_spans_all_maximal identify_spans_sorted by blast


theorem identify_spans_maximal_ordered_witness:
  "identify_spans example_mask True = [(0, 1, 3), (0, 4, 5), (1, 0, 2)]
   \<and> maximal_span example_mask True (0, 4, 5)
   \<and> sorted_wrt span_before [(0, 1, 3), (0, 4, 5), (1, 0, 2)]
   \<and> identify_spans example_mask False = [(0, 1, 2), (1, 0, 2), (2, 0, 1), (4, 0, 1)]
   \<and> maximal_span example_mask False (1, 0, 2)"
proof -
  note h = identify_spans_maximal_ordered [of example_mask True]
  note v = identify_spans_maximal_ordered [of example_mask False]
  from h have "maximal_span example_mask True (0, 4, 5)"
    unfolding example_spans_h by simp
  moreover from h have "sorted_wrt span_before [(0, 1, 3), (0, 4, 5), (1, 0, 2)]"
    unfolding example_spans_h by (rule conjunct2)
  moreover from v have "maximal_span example_mask False (1, 0, 2)"
    unfolding example_spans_v by simp
  ultimately show ?thesis
    using example_spans_h example_spans_v by (intro conjI)
qed

section \<open>Properties of the mask\<close>

subsection \<open>Arrays\<close>

lemma zeros_shape [simp]: "height (zeros h w) = h" "width (zeros h w) = w"
  by (simp_all add: zeros_def)

lemma wf_zeros [simp]: "wf_grid (zeros h w)"
  by (simp add: wf_grid_def zeros_def)

lemma cell_at_zeros: "y < h \<Longrightarrow> x < w \<Longrightarrow> cell_at (zeros h w) y x = 0"
  by (simp add: cell_at_def zeros_def)

lemma put_shape [simp]: "height (put g y x v) = height g" "width (put g y x v) = width g"
  by (simp_all add: put_def)

lemma wf_put: "wf_grid g \<Longrightarrow> wf_grid (put g y x v)"
proof (cases "y < length (cells g)")
  case False
  then have "length (cells g) \<le> y" by simp
  then have "put g y x v = g" by (simp add: put_def list_update_beyond)
  then show "wf_grid g \<Longrightarrow> wf_grid (put g y x v)" by simp
next
  case True
  assume wf: "wf_grid g"
  with True have "length ((cells g ! y)[x := v]) = width g"
    by (simp add: wf_grid_def)
  moreover have "set ((cells g)[y := (cells g ! y)[x := v]])
                   \<subseteq> insert ((cells g ! y)[x := v]) (set (cells g))"
    by (rule set_update_subset_insert)
  ultimately have "\<forall>row \<in> set ((cells g)[y := (cells g ! y)[x := v]]). length row = width g"
    using wf by (auto simp: wf_grid_def)
  with wf show "wf_grid (put g y x v)" by (simp add: wf_grid_def put_def)
qed

lemma wf_row: "wf_grid g \<Longrightarrow> y < height g \<Longrightarrow> length (cells g ! y) = width g"
  by (simp add: wf_grid_def)

lemma cell_at_put:
  "wf_grid g \<Longrightarrow> y < height g \<Longrightarrow> x < width g \<Longrightarrow>
     cell_at (put g y x v) y' x' = (if y' = y \<and> x' = x then v else cell_at g y' x')"
  using wf_row [of g y]
  by (auto simp: cell_at_def put_def wf_grid_def nth_list_update)

lemma map_grid_shape [simp]:
  "height (map_grid f g) = height g" "width (map_grid f g) = width g"
  by (simp_all add: map_grid_def)

lemma wf_map_grid: "wf_grid g \<Longrightarrow> wf_grid (map_grid f g)"
  by (auto simp: wf_grid_def map_grid_def)

lemma cell_at_map_grid:
  "wf_grid g \<Longrightarrow> y < height g \<Longrightarrow> x < width g \<Longrightarrow>
     cell_at (map_grid f g) y x = f (cell_at g y x)"
  using wf_row [of g y] by (simp add: cell_at_def map_grid_def wf_grid_def)

subsection \<open>The mask\<close>

lemma channel_value_valid:
  "channel \<in> mask_channels \<Longrightarrow> channel_value A hsl channel p = Inr (pixel_key A hsl channel p)"
  unfolding mask_channels_def channel_value_def pixel_key_def
  by (auto split: prod.splits)

lemma mask_pixel_valid:
  "channel \<in> mask_channels \<Longrightarrow>
     mask_pixel A hsl uniform img lo hi channel ro y x msk
       = Inr (if selects A hsl uniform img lo hi channel ro y x then put msk y x 1 else msk)"
  by (simp add: mask_pixel_def channel_value_valid selects_def Let_def)

lemma for_each_total:
  "(\<And>a s. body a s = Inr (step a s)) \<Longrightarrow> for_each body as s = Inr (fold step as s)"
  by (induction as arbitrary: s) simp_all

lemma mask_rows_valid:
  assumes "channel \<in> mask_channels"
  shows "for_each (\<lambda>y. for_each (mask_pixel A hsl uniform img lo hi channel ro y) xs) ys msk
           = Inr (fold (\<lambda>y. fold (\<lambda>x m. if selects A hsl uniform img lo hi channel ro y x
                                          then put m y x 1 else m) xs) ys msk)"
proof (rule for_each_total)
  fix y s
  show "for_each (mask_pixel A hsl uniform img lo hi channel ro y) xs s
          = Inr (fold (\<lambda>x m. if selects A hsl uniform img lo hi channel ro y x
                              then put m y x 1 else m) xs s)"
    by (rule for_each_total) (simp add: mask_pixel_valid [OF assms])
qed

lemma mark_row:
  assumes "wf_grid m" "y < height m" "set xs \<subseteq> {..<width m}"
  shows "wf_grid (fold (\<lambda>x m. if sel x then put m y x 1 else m) xs m)
         \<and> height (fold (\<lambda>x m. if sel x then put m y x 1 else m) xs m) = height m
         \<and> width (fold (\<lambda>x m. if sel x then put m y x 1 else m) xs m) = width m
         \<and> (\<forall>y' x'. cell_at (fold (\<lambda>x m. if sel x then put m y x 1 else m) xs m) y' x'
                      = (if y' = y \<and> x' \<in> set xs \<and> sel x' then 1 else cell_at m y' x'))"
  using assms
proof (induction xs arbitrary: m)
  case Nil
  then show ?case by simp
next
  case (Cons x xs)
  let ?m = "if sel x then put m y x 1 else m"
  have wf: "wf_grid ?m" and h: "height ?m = height m" and w: "width ?m = width m"
    using Cons.prems by (simp_all add: wf_put)
  have x: "x < width m" using Cons.prems by simp
  have c: "cell_at ?m y' x' = (if y' = y \<and> x' = x \<and> sel x then 1 else cell_at m y' x')" for y' x'
    using Cons.prems x by (simp add: cell_at_put)
  have xs: "set xs \<subseteq> {..<width ?m}" using Cons.prems w by simp
  have y: "y < height ?m" using Cons.prems h by simp
  have
    "wf_grid (fold (\<lambda>x m. if sel x then put m y x 1 else m) xs ?m)
     \<and> height (fold (\<lambda>x m. if sel x then put m y x 1 else m) xs ?m) = height ?m
     \<and> width (fold (\<lambda>x m. if sel x then put m y x 1 else m) xs ?m) = width ?m
     \<and> (\<forall>y' x'. cell_at (fold (\<lambda>x m. if sel x then put m y x 1 else m) xs ?m) y' x'
                  = (if y' = y \<and> x' \<in> set xs \<and> sel x' then 1 else cell_at ?m y' x'))"
    using wf y xs by (rule Cons.IH)
  then show ?case
    unfolding fold_Cons comp_def h w c by auto
qed

lemma mark_rows:
  assumes "wf_grid m" "set ys \<subseteq> {..<height m}" "set xs \<subseteq> {..<width m}"
  shows "wf_grid (fold (\<lambda>y. fold (\<lambda>x m. if sel y x then put m y x 1 else m) xs) ys m)
         \<and> height (fold (\<lambda>y. fold (\<lambda>x m. if sel y x then put m y x 1 else m) xs) ys m) = height m
         \<and> width (fold (\<lambda>y. fold (\<lambda>x m. if sel y x then put m y x 1 else m) xs) ys m) = width m
         \<and> (\<forall>y' x'. cell_at (fold (\<lambda>y. fold (\<lambda>x m. if sel y x then put m y x 1 else m) xs) ys m) y' x'
                      = (if y' \<in> set ys \<and> x' \<in> set xs \<and> sel y' x' then 1 else cell_at m y' x'))"
  using assms
proof (induction ys arbitrary: m)
  case Nil
  then show ?case by simp
next
  case (Cons y ys)
  let ?row = "fold (\<lambda>x m. if sel y x then put m y x 1 else m) xs"
  have y: "y < height m" using Cons.prems by simp
  note r = mark_row [OF Cons.prems(1) y Cons.prems(3), of "sel y"]
  from r have wf: "wf_grid (?row m)" and h: "height (?row m) = height m"
    and w: "width (?row m) = width m"
    and c: "\<And>y' x'. cell_at (?row m) y' x'
              = (if y' = y \<and> x' \<in> set xs \<and> sel y x' then 1 else cell_at m y' x')"
    by blast+
  have "set ys \<subseteq> {..<height (?row m)}" "set xs \<subseteq> {..<width (?row m)}"
    using Cons.prems h w by simp_all
  note Cons.IH [OF wf this]
  then show ?case
    unfolding fold_Cons comp_def h w c by auto
qed

lemma create_mask_valid:
  assumes "channel \<in> mask_channels"
  shows "\<exists>m. create_mask A hsl uniform img lo hi channel invert ro = Inr m
           \<and> wf_grid m \<and> height m = height img \<and> width m = width img
           \<and> (\<forall>y < height img. \<forall>x < width img.
                 cell_at m y x = (if selects A hsl uniform img lo hi channel ro y x \<noteq> invert
                                  then 1 else 0))"
proof -
  let ?sel = "selects A hsl uniform img lo hi channel ro"
  let ?m = "fold (\<lambda>y. fold (\<lambda>x m. if ?sel y x then put m y x 1 else m) [0..<width img])
              [0..<height img] (zeros (height img) (width img))"
  have "wf_grid (zeros (height img) (width img))"
       "set [0..<height img] \<subseteq> {..<height (zeros (height img) (width img))}"
       "set [0..<width img] \<subseteq> {..<width (zeros (height img) (width img))}"
    by auto
  note m = mark_rows [OF this, of ?sel]
  from m have wf: "wf_grid ?m" and h: "height ?m = height img" and w: "width ?m = width img"
    by simp_all
  have c: "cell_at ?m y x = (if ?sel y x then 1 else 0)" if "y < height img" "x < width img" for y x
    using m that by (simp add: cell_at_zeros)
  have run: "create_mask A hsl uniform img lo hi channel invert ro
               = Inr (if invert then map_grid (\<lambda>v. 1 - v) ?m else ?m)"
    by (simp add: create_mask_def Let_def mask_rows_valid [OF assms])
  show ?thesis
  proof (cases invert)
    case False
    with run wf h w c show ?thesis by simp
  next
    case True
    have "cell_at (map_grid (\<lambda>v. 1 - v) ?m) y x = (if ?sel y x then 0 else 1)"
      if "y < height img" "x < width img" for y x
      using that wf h w c [OF that] by (simp add: cell_at_map_grid)
    with True run wf h w show ?thesis by (simp add: wf_map_grid)
  qed
qed

lemma jittered_zero: "jittered A uniform (flt A 0) y x v = v"
  by (simp add: jittered_def)

lemma clip_between: "lo \<le> hi \<Longrightarrow> lo \<le> clip v lo hi \<and> clip v lo hi \<le> hi"
  by (simp add: clip_def)

lemma grey_row_mask:
  "create_mask exact const_hsl no_jitter grey_row (3 / 10) 1 ''luminance'' False 0
     = Inr \<lparr>height = 1, width = 5, cells = [[0, 1, 1, 0, 1]]\<rparr>"
  by code_simp

lemma grey_row_mask_inverted:
  "create_mask exact const_hsl no_jitter grey_row (3 / 10) 1 ''luminance'' True 0
     = Inr \<lparr>height = 1, width = 5, cells = [[1, 0, 0, 1, 0]]\<rparr>"
  by code_simp

lemma grey_row_mask_empty:
  "create_mask exact const_hsl no_jitter grey_row (7 / 10) (3 / 10) ''luminance'' False (1 / 10)
     = Inr \<lparr>height = 1, width = 5, cells = [[0, 0, 0, 0, 0]]\<rparr>"
  by code_simp

section \<open>The claims about \<open>create_mask\<close>\<close>

text \<open>
  C8: for every image, every channel among \<open>luminance\<close>, \<open>hsl_h\<close>, \<open>hsl_s\<close> and
  \<open>hsl_l\<close>, and jitter \<open>0\<close>, \<open>create_mask\<close> returns a grid of the image's shape in which
  a cell is \<open>1\<close> exactly when the channel's value at the pixel lies between the thresholds,
  both ends included, and \<open>0\<close> otherwise; with \<open>invert\<close> set, every cell is flipped.
\<close>

theorem create_mask_threshold:
  "channel \<in> mask_channels \<Longrightarrow>
     \<exists>m. create_mask A hsl uniform img low_thresh high_thresh channel invert (flt A 0) = Inr m
       \<and> height m = height img \<and> width m = width img
       \<and> (\<forall>y < height img. \<forall>x < width img.
             cell_at m y x =
               (if (low_thresh \<le> pixel_key A hsl channel (cell_at img y x)
                    \<and> pixel_key A hsl channel (cell_at img y x) \<le> high_thresh) \<noteq> invert
                then 1 else 0))"
proof -
  assume c: "channel \<in> mask_channels"
  have s: "selects A hsl uniform img low_thresh high_thresh channel (flt A 0) y x
             \<longleftrightarrow> low_thresh \<le> pixel_key A hsl channel (cell_at img y x)
                  \<and> pixel_key A hsl channel (cell_at img y x) \<le> high_thresh" for y x
    by (simp add: selects_def Let_def jittered_zero)
  from create_mask_valid [OF c, of A hsl uniform img low_thresh high_thresh invert "flt A 0"]
  show ?thesis
    unfolding s by blast
qed

theorem create_mask_threshold_witness:
  "''luminance'' \<in> mask_channels
   \<and> (\<exists>m. create_mask exact const_hsl no_jitter grey_row (3 / 10) 1 ''luminance'' False 0 = Inr m
          \<and> cell_at m 0 0 = 0 \<and> cell_at m 0 1 = 1 \<and> cell_at m 0 3 = 0 \<and> cell_at m 0 4 = 1)
   \<and> (\<exists>m. create_mask exact const_hsl no_jitter grey_row (3 / 10) 1 ''luminance'' True 0 = Inr m
          \<and> cell_at m 0 0 = 1 \<and> cell_at m 0 1 = 0 \<and> cell_at m 0 3 = 1 \<and> cell_at m 0 4 = 0)"
proof -
  have c: "''luminance'' \<in> mask_channels"
    by (simp add: mask_channels_def)
  have z: "flt exact 0 = 0"
    by (simp add: exact_def)
  have k: "pixel_key exact const_hsl ''luminance'' (cell_at grey_row 0 0) = 0"
          "pixel_key exact const_hsl ''luminance'' (cell_at grey_row 0 1) = 1"
          "pixel_key exact const_hsl ''luminance'' (cell_at grey_row 0 3) = 1 / 5"
          "pixel_key exact const_hsl ''luminance'' (cell_at grey_row 0 4) = 1"
    by (simp_all add: pixel_key_def luminance_def exact_def grey_row_def cell_at_def of_rat_divide)
  have d: "height grey_row = 1" "width grey_row = 5"
    by (simp_all add: grey_row_def)
  note plain = create_mask_threshold
    [OF c, of exact const_hsl no_jitter grey_row "3 / 10" 1 False, unfolded z d]
  note inverted = create_mask_threshold
    [OF c, of exact const_hsl no_jitter grey_row "3 / 10" 1 True, unfolded z d]
  from plain obtain m where
    "create_mask exact const_hsl no_jitter grey_row (3 / 10) 1 ''luminance'' False 0 = Inr m"
    "cell_at m 0 0 = 0" "cell_at m 0 1 = 1" "cell_at m 0 3 = 0" "cell_at m 0 4 = 1"
    using k by fastforce
  moreover from inverted obtain m' where
    "create_mask exact const_hsl no_jitter grey_row (3 / 10) 1 ''luminance'' True 0 = Inr m'"
    "cell_at m' 0 0 = 1" "cell_at m' 0 1 = 0" "cell_at m' 0 3 = 1" "cell_at m' 0 4 = 0"
    using k by fastforce
  ultimately show ?thesis using c by blast
qed

text \<open>
  C5: when \<open>low > high\<close> no pixel is selected, whatever the image, the jitter and the
  numbers drawn: the grid is all \<open>0\<close>, and all \<open>1\<close> when \<open>invert\<close> is set. It is a
  result, not an error.
\<close>

theorem create_mask_empty_range:
  "channel \<in> mask_channels \<Longrightarrow> high_thresh < low_thresh \<Longrightarrow>
     \<exists>m. create_mask A hsl uniform img low_thresh high_thresh channel invert random_offset = Inr m
       \<and> height m = height img \<and> width m = width img
       \<and> (\<forall>y < height img. \<forall>x < width img. cell_at m y x = (if invert then 1 else 0))"
proof -
  assume c: "channel \<in> mask_channels" and e: "high_thresh < low_thresh"
  have s: "selects A hsl uniform img low_thresh high_thresh channel random_offset y x
             \<longleftrightarrow> False" for y x
    using e by (auto simp: selects_def Let_def)
  from create_mask_valid [OF c, of A hsl uniform img low_thresh high_thresh invert random_offset]
  show ?thesis
    unfolding s by auto
qed

theorem create_mask_empty_range_witness:
  "''luminance'' \<in> mask_channels \<and> (3 / 10 :: real) < 7 / 10
   \<and> create_mask exact const_hsl no_jitter grey_row (7 / 10) (3 / 10) ''luminance'' False (1 / 10)
       = Inr \<lparr>height = 1, width = 5, cells = [[0, 0, 0, 0, 0]]\<rparr>
   \<and> (\<exists>m. create_mask exact const_hsl no_jitter grey_row (7 / 10) (3 / 10) ''luminance'' True (1 / 10)
            = Inr m \<and> cell_at m 0 0 = 1 \<and> cell_at m 0 4 = 1)"
proof -
  have c: "''luminance'' \<in> mask_channels"
    by (simp add: mask_channels_def)
  have e: "(3 / 10 :: real) < 7 / 10"
    by simp
  have d: "height grey_row = 1" "width grey_row = 5"
    by (simp_all add: grey_row_def)
  note inverted = create_mask_empty_range
    [OF c e, of exact const_hsl no_jitter grey_row True "1 / 10", unfolded d]
  then obtain m where
    "create_mask exact const_hsl no_jitter grey_row (7 / 10) (3 / 10) ''luminance'' True (1 / 10) = Inr m"
    "cell_at m 0 0 = 1" "cell_at m 0 4 = 1"
    by fastforce
  then show ?thesis using c e grey_row_mask_empty by blast
qed


section \<open>Properties of the pipeline\<close>

lemma cell_at_put_other:
  "y' \<noteq> y \<or> x' \<noteq> x \<Longrightarrow> cell_at (put g y x v) y' x' = cell_at g y' x'"
proof (cases "y' = y")
  case False
  then show ?thesis by (simp add: cell_at_def put_def)
next
  case True
  assume "y' \<noteq> y \<or> x' \<noteq> x"
  with True have x: "x' \<noteq> x" by simp
  show ?thesis
  proof (cases "y < length (cells g)")
    case True
    with \<open>y' = y\<close> x show ?thesis by (simp add: cell_at_def put_def)
  next
    case False
    then have "length (cells g) \<le> y" by simp
    then show ?thesis by (simp add: cell_at_def put_def list_update_beyond)
  qed
qed

lemma set_slice_shape [simp]:
  "height (set_slice g y start stop vals) = height g"
  "width (set_slice g y start stop vals) = width g"
  by (simp_all add: set_slice_def)

lemma wf_set_slice:
  assumes "wf_grid g" "y < height g" "start \<le> stop" "stop \<le> width g" "length vals = stop - start"
  shows "wf_grid (set_slice g y start stop vals)"
proof -
  define row where "row = take start (cells g ! y) @ vals @ drop stop (cells g ! y)"
  have "length (cells g ! y) = width g" using assms(1,2) by (rule wf_row)
  with assms(3,4,5) have len: "length row = width g" by (simp add: row_def)
  have sub: "set ((cells g)[y := row]) \<subseteq> insert row (set (cells g))"
    by (rule set_update_subset_insert)
  have "length r = width g" if "r \<in> set ((cells g)[y := row])" for r
  proof -
    from that sub have "r = row \<or> r \<in> set (cells g)" by blast
    then show ?thesis using len assms(1) unfolding wf_grid_def by blast
  qed
  moreover have "length ((cells g)[y := row]) = height g"
    using assms(1) by (simp add: wf_grid_def)
  ultimately show ?thesis
    unfolding wf_grid_def set_slice_def row_def [symmetric] by simp
qed

lemma slice_nth_other:
  assumes "start \<le> stop" "stop \<le> length row" "length vals = stop - start"
    and "x < start \<or> stop \<le> x"
  shows "(take start row @ vals @ drop stop row) ! x = row ! x"
proof -
  have lt: "length (take start row) = start" using assms(1,2) by simp
  from assms(4) show ?thesis
  proof
    assume "x < start"
    then have "(take start row @ vals @ drop stop row) ! x = take start row ! x"
      using lt by (simp only: nth_append if_True)
    also have "\<dots> = row ! x" using \<open>x < start\<close> by (rule nth_take)
    finally show ?thesis .
  next
    assume after: "stop \<le> x"
    then have "\<not> x < length (take start row)" using lt assms(1) by simp
    then have "(take start row @ vals @ drop stop row) ! x = (vals @ drop stop row) ! (x - start)"
      using lt by (simp only: nth_append if_False)
    also have "\<not> x - start < length vals" using assms(1,3) after by simp
    then have "(vals @ drop stop row) ! (x - start) = drop stop row ! (x - start - length vals)"
      by (simp only: nth_append if_False)
    also have "x - start - length vals = x - stop" using assms(1,3) after by simp
    also have "drop stop row ! (x - stop) = row ! (stop + (x - stop))"
      using assms(2) by (rule nth_drop)
    also have "stop + (x - stop) = x" using after by simp
    finally show ?thesis .
  qed
qed

lemma cell_at_set_slice_other:
  assumes "wf_grid g" "y < height g" "start \<le> stop" "stop \<le> width g" "length vals = stop - start"
    and "\<not> (y' = y \<and> start \<le> x' \<and> x' < stop)"
  shows "cell_at (set_slice g y start stop vals) y' x' = cell_at g y' x'"
proof (cases "y' = y")
  case False
  then show ?thesis by (simp add: cell_at_def set_slice_def)
next
  case True
  have len: "length (cells g ! y) = width g" using assms(1,2) by (rule wf_row)
  have y: "y < length (cells g)" using assms(1,2) by (simp add: wf_grid_def)
  have "x' < start \<or> stop \<le> x'" using True assms(6) by linarith
  with assms(3) have "(take start (cells g ! y) @ vals @ drop stop (cells g ! y)) ! x' = cells g ! y ! x'"
    using assms(4,5) len by (intro slice_nth_other) simp_all
  with True y show ?thesis by (simp add: cell_at_def set_slice_def)
qed

lemma put_column:
  "wf_grid g \<Longrightarrow>
     wf_grid (fold (\<lambda>(j, y) out. put out y x (f j)) jys g)
     \<and> height (fold (\<lambda>(j, y) out. put out y x (f j)) jys g) = height g
     \<and> width (fold (\<lambda>(j, y) out. put out y x (f j)) jys g) = width g
     \<and> (\<forall>y' x'. (x' \<noteq> x \<or> y' \<notin> snd ` set jys) \<longrightarrow>
           cell_at (fold (\<lambda>(j, y) out. put out y x (f j)) jys g) y' x' = cell_at g y' x')"
proof (induction jys arbitrary: g)
  case Nil
  then show ?case by simp
next
  case (Cons jy jys)
  obtain j y where jy: "jy = (j, y)" by (cases jy)
  have "wf_grid (put g y x (f j))" using Cons.prems by (rule wf_put)
  note ih = Cons.IH [OF this]
  show ?case
    unfolding jy fold_Cons comp_def prod.case
    using ih by (auto simp: cell_at_put_other)
qed

lemma sort_one_frame:
  assumes "wf_grid out" "span_in_range out horizontal sp"
  shows "wf_grid (sort_one A hsl horizontal metric reverse sp out)
         \<and> height (sort_one A hsl horizontal metric reverse sp out) = height out
         \<and> width (sort_one A hsl horizontal metric reverse sp out) = width out
         \<and> (\<forall>y x. \<not> in_span horizontal sp y x \<longrightarrow>
               cell_at (sort_one A hsl horizontal metric reverse sp out) y x = cell_at out y x)"
proof -
  obtain i start stop where sp: "sp = (i, start, stop)" by (cases sp)
  show ?thesis
  proof (cases horizontal)
    case True
    let ?vals = "sort_span A hsl (map (\<lambda>x. cell_at out i x) [start..<stop]) metric reverse"
    have r: "i < height out" "start \<le> stop" "stop \<le> width out"
      using assms(2) True by (simp_all add: sp span_in_range_def line_count_def line_length_def)
    have l: "length ?vals = stop - start" by (simp add: length_sort_span)
    have e: "sort_one A hsl horizontal metric reverse sp out = set_slice out i start stop ?vals"
      using True by (simp add: sort_one_def sp Let_def)
    show ?thesis
      unfolding e
      using wf_set_slice [OF assms(1) r l] cell_at_set_slice_other [OF assms(1) r l] True
      by (simp add: in_span_def sp)
  next
    case False
    let ?vals = "sort_span A hsl (map (\<lambda>y. cell_at out y i) [start..<stop]) metric reverse"
    have e: "sort_one A hsl horizontal metric reverse sp out
               = fold (\<lambda>(j, y) out. put out y i (?vals ! j)) (enumerate 0 [start..<stop]) out"
      using False by (simp add: sort_one_def sp Let_def)
    have s: "snd ` set (enumerate 0 [start..<stop]) = {start..<stop}"
      by (metis List.set_map atLeastLessThan_upt map_snd_enumerate)
    show ?thesis
      unfolding e
      using put_column [OF assms(1), of i "\<lambda>j. ?vals ! j" "enumerate 0 [start..<stop]"] False
      unfolding s by (auto simp: in_span_def sp)
  qed
qed

lemma span_in_range_shape:
  "height g' = height g \<Longrightarrow> width g' = width g \<Longrightarrow>
     span_in_range g' horizontal sp = span_in_range g horizontal sp"
  by (simp add: span_in_range_def line_count_def line_length_def)

lemma sort_all_frame:
  assumes "wf_grid out" "\<forall>sp \<in> set sps. span_in_range out horizontal sp"
  shows "wf_grid (fold (sort_one A hsl horizontal metric reverse) sps out)
         \<and> height (fold (sort_one A hsl horizontal metric reverse) sps out) = height out
         \<and> width (fold (sort_one A hsl horizontal metric reverse) sps out) = width out
         \<and> (\<forall>y x. (\<forall>sp \<in> set sps. \<not> in_span horizontal sp y x) \<longrightarrow>
               cell_at (fold (sort_one A hsl horizontal metric reverse) sps out) y x = cell_at out y x)"
  using assms
proof (induction sps arbitrary: out)
  case Nil
  then show ?case by simp
next
  case (Cons sp sps)
  let ?out = "sort_one A hsl horizontal metric reverse sp out"
  have "span_in_range out horizontal sp" using Cons.prems by simp
  note one = sort_one_frame [OF Cons.prems(1) this, of A hsl metric reverse]
  from one have "span_in_range ?out horizontal s = span_in_range out horizontal s" for s
    by (intro span_in_range_shape) simp_all
  then have "\<forall>sp \<in> set sps. span_in_range ?out horizontal sp"
    using Cons.prems(2) by simp
  with one have ih:
    "wf_grid (fold (sort_one A hsl horizontal metric reverse) sps ?out)
     \<and> height (fold (sort_one A hsl horizontal metric reverse) sps ?out) = height ?out
     \<and> width (fold (sort_one A hsl horizontal metric reverse) sps ?out) = width ?out
     \<and> (\<forall>y x. (\<forall>sp \<in> set sps. \<not> in_span horizontal sp y x) \<longrightarrow>
           cell_at (fold (sort_one A hsl horizontal metric reverse) sps ?out) y x = cell_at ?out y x)"
    by (intro Cons.IH) simp_all
  with one show ?case by simp
qed

lemma fold_heap_update:
  "out < length hp \<Longrightarrow>
     fold (\<lambda>sp hp. hp[out := f sp (hp ! out)]) sps hp = hp[out := fold f sps (hp ! out)]"
  by (induction sps arbitrary: hp) simp_all


lemma for_each_invariant:
  assumes "\<And>a s s'. P s \<Longrightarrow> body a s = Inr s' \<Longrightarrow> P s'"
    and "P s" "for_each body as s = Inr s'"
  shows "P s'"
  using assms(2,3)
proof (induction as arbitrary: s)
  case Nil
  then show ?case by simp
next
  case (Cons a as)
  from Cons.prems(2) obtain s1 where s1: "body a s = Inr s1" "for_each body as s1 = Inr s'"
    by (auto split: sum.splits)
  have "P s1" using Cons.prems(1) s1(1) by (rule assms(1))
  then show ?case using s1(2) by (rule Cons.IH)
qed

lemma mask_pixel_shape:
  "mask_pixel A hsl uniform img lo hi channel ro y x m = Inr m' \<Longrightarrow>
     wf_grid m \<and> height m = h \<and> width m = w \<Longrightarrow>
     wf_grid m' \<and> height m' = h \<and> width m' = w"
  by (auto simp: mask_pixel_def Let_def wf_put split: sum.splits if_splits)

lemma create_mask_shape:
  assumes "create_mask A hsl uniform img lo hi channel invert ro = Inr msk"
  shows "wf_grid msk \<and> height msk = height img \<and> width msk = width img"
proof -
  let ?P = "\<lambda>m. wf_grid m \<and> height m = height img \<and> width m = width img"
  from assms obtain m where
    run: "for_each (\<lambda>y. for_each (mask_pixel A hsl uniform img lo hi channel ro y) [0..<width img])
            [0..<height img] (zeros (height img) (width img)) = Inr m"
    and msk: "msk = (if invert then map_grid (\<lambda>v. 1 - v) m else m)"
    by (auto simp: create_mask_def Let_def split: sum.splits)
  have row: "?P s'"
    if "?P s" "for_each (mask_pixel A hsl uniform img lo hi channel ro y) [0..<width img] s = Inr s'"
    for y s s'
    using _ that
  proof (rule for_each_invariant [where P = ?P])
    fix a s s'
    assume "?P s" "mask_pixel A hsl uniform img lo hi channel ro y a s = Inr s'"
    then show "?P s'" using mask_pixel_shape by blast
  qed
  have "?P m"
    using _ _ run
  proof (rule for_each_invariant [where P = ?P])
    show "?P (zeros (height img) (width img))" by simp
  next
    fix a s s'
    assume "?P s"
      "for_each (mask_pixel A hsl uniform img lo hi channel ro a) [0..<width img] s = Inr s'"
    then show "?P s'" by (rule row)
  qed
  then show ?thesis
    unfolding msk by (simp add: wf_map_grid)
qed

lemma spans_in_range:
  assumes "height msk = height g" "width msk = width g"
  shows "\<forall>sp \<in> set (identify_spans msk horizontal). span_in_range g horizontal sp"
proof
  fix sp
  assume "sp \<in> set (identify_spans msk horizontal)"
  then have "maximal_span msk horizontal sp" by (rule identify_spans_all_maximal)
  then show "span_in_range g horizontal sp"
    using assms
    by (cases sp; cases horizontal)
       (simp_all add: maximal_span_def span_in_range_def line_count_def line_length_def)
qed

lemma sorted_image_frame:
  assumes "wf_grid img" "height msk = height img" "width msk = width img"
  shows "wf_grid (sorted_image A hsl horizontal metric reverse msk img)
         \<and> height (sorted_image A hsl horizontal metric reverse msk img) = height img
         \<and> width (sorted_image A hsl horizontal metric reverse msk img) = width img
         \<and> (\<forall>y x. (\<forall>sp \<in> set (identify_spans msk horizontal). \<not> in_span horizontal sp y x) \<longrightarrow>
               cell_at (sorted_image A hsl horizontal metric reverse msk img) y x = cell_at img y x)"
  unfolding sorted_image_def
  using assms(1) spans_in_range [OF assms(2,3)] by (rule sort_all_frame)

lemma pixel_sort_unfold:
  assumes "img < length hp"
  shows "pixel_sort A hsl uniform hp img lo hi channel invert ro horizontal metric reverse gamma =
     (case create_mask A hsl uniform (hp ! img) lo hi channel invert ro of
        Inl e \<Rightarrow> (Inl e, hp @ [hp ! img])
      | Inr msk \<Rightarrow>
          if gamma \<noteq> lit A 1 then
            if gamma = flt A 0
            then (Inl ZeroDivisionError,
                  hp @ [sorted_image A hsl horizontal metric reverse msk (hp ! img)])
            else (Inr (Suc (length hp)),
                  hp @ [sorted_image A hsl horizontal metric reverse msk (hp ! img),
                        gamma_correct A gamma
                          (sorted_image A hsl horizontal metric reverse msk (hp ! img))])
          else (Inr (length hp),
                hp @ [sorted_image A hsl horizontal metric reverse msk (hp ! img)]))"
proof -
  have r: "(hp @ [hp ! img]) ! img = hp ! img"
    using assms by (simp add: nth_append)
  have f: "fold (\<lambda>sp h. h[length hp := f sp (h ! length hp)]) sps (hp @ [a])
             = hp @ [fold f sps a]" for f sps and a :: image
    using fold_heap_update [of "length hp" "hp @ [a]" f sps] by simp
  show ?thesis
    unfolding pixel_sort_def copy_array_def new_array_def prod.case r Let_def f sorted_image_def
    by (simp split: sum.splits)
qed

lemma map_px_comp: "map_px f (map_px g p) = map_px (\<lambda>v. f (g v)) p"
  by (cases p) (simp add: map_px_def)

lemma map_grid_comp: "map_grid f (map_grid g a) = map_grid (\<lambda>v. f (g v)) a"
  by (simp add: map_grid_def comp_def)

lemma gamma_correct_value:
  "gamma_correct A gamma out = map_grid (map_px (gamma_value A gamma)) out"
  unfolding gamma_correct_def Let_def map_grid_comp map_px_comp gamma_value_def ..

end
